theory Spec2Isabelle
  imports Main "HOL-Library.Sublist"
begin

section \<open>The menu reducer of \<^verbatim>\<open>components/menu/menu.tsx\<close>\<close>

text \<open>
  The reducer of the menu component is a table of pure functions from a state object and
  an action to a state object. Three things in it depend on object identity: a no-op
  transition returns the state object it was given, \<^verbatim>\<open>RegisterItem\<close> creates a
  new item object, and \<^verbatim>\<open>UnregisterItem\<close> looks the active item up again with
  \<^verbatim>\<open>indexOf\<close>, which compares object references. Objects therefore live in an
  explicit store and are named by references.
\<close>

subsection \<open>Data model\<close>

type_synonym ref = nat

datatype MenuStates = Open | Closed

text \<open>The record behind \<^verbatim>\<open>MenuItemDataRef['current']\<close>: the text is optional.\<close>

record ItemData =
  textValue :: "string option"
  disabled :: bool

text \<open>
  An entry of \<^verbatim>\<open>items\<close>, \<^verbatim>\<open>{ id: string; dataRef: MenuItemDataRef }\<close>. The
  field \<^verbatim>\<open>id\<close> is called \<open>item_id\<close>; \<open>dataRef\<close> is the reference of the shared
  mutable cell.
\<close>

record Item =
  item_id :: string
  dataRef :: ref

text \<open>
  \<^verbatim>\<open>StateDefinition\<close>. The array \<^verbatim>\<open>items\<close> holds references of item objects;
  \<^verbatim>\<open>activeItemIndex: number | null\<close> is an optional integer (the reducer can store
  the \<open>-1\<close> of \<^verbatim>\<open>indexOf\<close> in it).
\<close>

record StateDefinition =
  menuState :: MenuStates
  buttonRef :: ref
  itemsRef :: ref
  items :: "ref list"
  searchQuery :: string
  activeItemIndex :: "int option"

datatype Focus = First | Previous | Next | Last | Specific string | Nothing

text \<open>
  \<^verbatim>\<open>Actions\<close>, a closed sum over \<^verbatim>\<open>ActionTypes\<close>. The \<^verbatim>\<open>GoToItem\<close> action
  carries its \<^verbatim>\<open>focus\<close>, and the \<^verbatim>\<open>id\<close> of \<^verbatim>\<open>Focus.Specific\<close> with it.
\<close>

datatype Actions =
    CloseMenu
  | OpenMenu
  | GoToItem Focus
  | Search string
  | ClearSearch
  | RegisterItem string ref
  | UnregisterItem string

subsection \<open>The object store\<close>

text \<open>
  Every reference holds an object of its kind; \<open>nextRef\<close> is the next reference an
  object literal gets. The cells of \<open>refCells\<close> are written by the items' own effects,
  never by the reducer.
\<close>

record heap =
  refCells :: "ref \<Rightarrow> ItemData"
  itemObjs :: "ref \<Rightarrow> Item"
  stateObjs :: "ref \<Rightarrow> StateDefinition"
  nextRef :: ref

text \<open>An object literal \<^verbatim>\<open>{ ...state, ... }\<close>: a new state object.\<close>

definition new_state :: "heap \<Rightarrow> StateDefinition \<Rightarrow> ref \<times> heap" where
  "new_state h st =
     (nextRef h, h\<lparr>stateObjs := (stateObjs h)(nextRef h := st), nextRef := Suc (nextRef h)\<rparr>)"

text \<open>An object literal \<^verbatim>\<open>{ id: ..., dataRef: ... }\<close>: a new item object.\<close>

definition new_item :: "heap \<Rightarrow> Item \<Rightarrow> ref \<times> heap" where
  "new_item h it =
     (nextRef h, h\<lparr>itemObjs := (itemObjs h)(nextRef h := it), nextRef := Suc (nextRef h)\<rparr>)"

subsection \<open>Array operations\<close>

text \<open>\<^verbatim>\<open>Array.prototype.findIndex\<close>: the first index whose element passes, or \<open>-1\<close>.\<close>

fun findIndex :: "('a \<Rightarrow> bool) \<Rightarrow> 'a list \<Rightarrow> int" where
  "findIndex p [] = - 1"
| "findIndex p (x # xs) =
     (if p x then 0 else (let i = findIndex p xs in if i = - 1 then - 1 else i + 1))"

text \<open>
  What \<^verbatim>\<open>currentActiveItem\<close> can hold: \<^verbatim>\<open>null\<close>, the \<^verbatim>\<open>undefined\<close> of an
  out-of-range array read, or an item object.
\<close>

datatype jsval = Null | Undefined | Obj ref

definition array_get :: "ref list \<Rightarrow> int \<Rightarrow> jsval" where
  "array_get xs i = (if 0 \<le> i \<and> i < int (length xs) then Obj (xs ! nat i) else Undefined)"

text \<open>\<^verbatim>\<open>Array.prototype.indexOf\<close> compares with \<^verbatim>\<open>===\<close>, on objects by reference.\<close>

definition indexOf :: "ref list \<Rightarrow> jsval \<Rightarrow> int" where
  "indexOf xs v = findIndex (\<lambda>x. Obj x = v) xs"

text \<open>\<^verbatim>\<open>splice(idx, 1)\<close> for an index in range.\<close>

definition splice1 :: "'a list \<Rightarrow> int \<Rightarrow> 'a list" where
  "splice1 xs idx = take (nat idx) xs @ drop (Suc (nat idx)) xs"

subsection \<open>The reducers\<close>

definition reducers_CloseMenu :: "heap \<Rightarrow> ref \<Rightarrow> ref \<times> heap" where
  "reducers_CloseMenu h state =
     (if menuState (stateObjs h state) = Closed then (state, h)
      else new_state h ((stateObjs h state)\<lparr>activeItemIndex := None, menuState := Closed\<rparr>))"

definition reducers_OpenMenu :: "heap \<Rightarrow> ref \<Rightarrow> ref \<times> heap" where
  "reducers_OpenMenu h state =
     (if menuState (stateObjs h state) = Open then (state, h)
      else new_state h ((stateObjs h state)\<lparr>menuState := Open\<rparr>))"

text \<open>The resolvers \<^verbatim>\<open>item => item.id\<close> and \<^verbatim>\<open>item => item.dataRef.current.disabled\<close>.\<close>

definition resolveId :: "heap \<Rightarrow> ref \<Rightarrow> string" where
  "resolveId h item = item_id (itemObjs h item)"

definition resolveDisabled :: "heap \<Rightarrow> ref \<Rightarrow> bool" where
  "resolveDisabled h item = disabled (refCells h (dataRef (itemObjs h item)))"

text \<open>
  \<^verbatim>\<open>calculateActiveIndex\<close> is imported from \<^verbatim>\<open>utils/calculate-active-index\<close>; the
  reducer takes it as the parameter \<open>calc\<close>, applied to the action's focus, the results
  of \<^verbatim>\<open>resolveItems()\<close> and \<^verbatim>\<open>resolveActiveIndex()\<close>, and the two resolvers.
\<close>

type_synonym resolver =
  "Focus \<Rightarrow> ref list \<Rightarrow> int option \<Rightarrow> (ref \<Rightarrow> string) \<Rightarrow> (ref \<Rightarrow> bool) \<Rightarrow> int option"

definition reducers_GoToItem :: "resolver \<Rightarrow> heap \<Rightarrow> ref \<Rightarrow> Focus \<Rightarrow> ref \<times> heap" where
  "reducers_GoToItem calc h state focus =
     (let st = stateObjs h state;
          activeItemIndex' =
            calc focus (items st) (activeItemIndex st) (resolveId h) (resolveDisabled h)
      in if searchQuery st = [] \<and> activeItemIndex st = activeItemIndex' then (state, h)
         else new_state h (st\<lparr>searchQuery := [], activeItemIndex := activeItemIndex'\<rparr>))"

text \<open>
  The predicate of the search:
  \<^verbatim>\<open>item.dataRef.current.textValue?.startsWith(searchQuery) && !item.dataRef.current.disabled\<close>.
  A missing text makes it false.
\<close>

definition search_matches :: "heap \<Rightarrow> string \<Rightarrow> ref \<Rightarrow> bool" where
  "search_matches h query item =
     (let cur = refCells h (dataRef (itemObjs h item))
      in (case textValue cur of None \<Rightarrow> False | Some t \<Rightarrow> prefix query t) \<and> \<not> disabled cur)"

definition reducers_Search :: "heap \<Rightarrow> ref \<Rightarrow> string \<Rightarrow> ref \<times> heap" where
  "reducers_Search h state val =
     (let st = stateObjs h state;
          searchQuery' = searchQuery st @ val;
          match = findIndex (search_matches h searchQuery') (items st)
      in if match = - 1 \<or> Some match = activeItemIndex st
         then new_state h (st\<lparr>searchQuery := searchQuery'\<rparr>)
         else new_state h (st\<lparr>searchQuery := searchQuery', activeItemIndex := Some match\<rparr>))"

definition reducers_ClearSearch :: "heap \<Rightarrow> ref \<Rightarrow> ref \<times> heap" where
  "reducers_ClearSearch h state =
     (if searchQuery (stateObjs h state) = [] then (state, h)
      else new_state h ((stateObjs h state)\<lparr>searchQuery := []\<rparr>))"

definition reducers_RegisterItem :: "heap \<Rightarrow> ref \<Rightarrow> string \<Rightarrow> ref \<Rightarrow> ref \<times> heap" where
  "reducers_RegisterItem h state aid adataRef =
     (let st = stateObjs h state;
          (item, h1) = new_item h \<lparr>item_id = aid, dataRef = adataRef\<rparr>
      in new_state h1 (st\<lparr>items := items st @ [item]\<rparr>))"

definition reducers_UnregisterItem :: "heap \<Rightarrow> ref \<Rightarrow> string \<Rightarrow> ref \<times> heap" where
  "reducers_UnregisterItem h state aid =
     (let st = stateObjs h state;
          nextItems = items st;
          currentActiveItem =
            (case activeItemIndex st of Some i \<Rightarrow> array_get nextItems i | None \<Rightarrow> Null);
          idx = findIndex (\<lambda>a. item_id (itemObjs h a) = aid) nextItems;
          nextItems' = (if idx \<noteq> - 1 then splice1 nextItems idx else nextItems)
      in new_state h (st\<lparr>items := nextItems',
           activeItemIndex :=
             (if Some idx = activeItemIndex st then None
              else if currentActiveItem = Null then None
              else Some (indexOf nextItems' currentActiveItem))\<rparr>))"

text \<open>\<^verbatim>\<open>stateReducer\<close>: \<^verbatim>\<open>match(action.type, reducers, state, action)\<close>.\<close>

fun stateReducer :: "resolver \<Rightarrow> heap \<Rightarrow> ref \<Rightarrow> Actions \<Rightarrow> ref \<times> heap" where
  "stateReducer calc h state CloseMenu = reducers_CloseMenu h state"
| "stateReducer calc h state OpenMenu = reducers_OpenMenu h state"
| "stateReducer calc h state (GoToItem focus) = reducers_GoToItem calc h state focus"
| "stateReducer calc h state (Search val) = reducers_Search h state val"
| "stateReducer calc h state ClearSearch = reducers_ClearSearch h state"
| "stateReducer calc h state (RegisterItem aid adataRef) =
     reducers_RegisterItem h state aid adataRef"
| "stateReducer calc h state (UnregisterItem aid) = reducers_UnregisterItem h state aid"

text \<open>The state object a dispatch leaves behind, read from the store it returns.\<close>

definition dispatched :: "resolver \<Rightarrow> heap \<Rightarrow> ref \<Rightarrow> Actions \<Rightarrow> StateDefinition" where
  "dispatched calc h state action =
     (case stateReducer calc h state action of (state', h') \<Rightarrow> stateObjs h' state')"

text \<open>
  The initial state of \<^verbatim>\<open>useReducer\<close> in \<^verbatim>\<open>Menu\<close>; the two refs come from
  \<^verbatim>\<open>createRef()\<close>.
\<close>

definition initial_state :: "ref \<Rightarrow> ref \<Rightarrow> StateDefinition" where
  "initial_state b i =
     \<lparr>menuState = Closed, buttonRef = b, itemsRef = i, items = [], searchQuery = [],
      activeItemIndex = None\<rparr>"

subsection \<open>The text of an item\<close>

text \<open>
  \<^verbatim>\<open>String.prototype.toLowerCase\<close> on the ASCII letters; a \<open>char\<close> is a byte, so
  the letters beyond ASCII are left as they are.
\<close>

definition toLowerCase_char :: "char \<Rightarrow> char" where
  "toLowerCase_char c =
     (let n = (of_char c :: nat) in if 65 \<le> n \<and> n \<le> 90 then char_of (n + 32) else c)"

definition toLowerCase :: "string \<Rightarrow> string" where
  "toLowerCase s = map toLowerCase_char s"

text \<open>
  The effect of \<^verbatim>\<open>Item\<close> that sets the text:
  \<^verbatim>\<open>bag.current.textValue = document.getElementById(id)?.textContent?.toLowerCase()\<close>.
  The argument \<open>textContent\<close> is the text of the element, when there is one.
\<close>

definition Item_textValue_effect :: "heap \<Rightarrow> ref \<Rightarrow> string option \<Rightarrow> heap" where
  "Item_textValue_effect h bag textContent =
     h\<lparr>refCells := (refCells h)
          (bag := (refCells h bag)\<lparr>textValue := map_option toLowerCase textContent\<rparr>)\<rparr>"

subsection \<open>The context guard\<close>

datatype error = Error string

text \<open>\<^verbatim>\<open>Array.prototype.join\<close> on strings.\<close>

fun join :: "string \<Rightarrow> string list \<Rightarrow> string" where
  "join sep [] = []"
| "join sep [x] = x"
| "join sep (x # y # ys) = x @ sep @ join sep (y # ys)"

text \<open>The \<^verbatim>\<open>name\<close> of the functions \<^verbatim>\<open>Menu\<close>, \<^verbatim>\<open>Button\<close>, \<^verbatim>\<open>Items\<close>, \<^verbatim>\<open>Item\<close>.\<close>

definition Menu_name :: string where "Menu_name = ''Menu''"
definition Button_name :: string where "Button_name = ''Button''"
definition Items_name :: string where "Items_name = ''Items''"
definition Item_name :: string where "Item_name = ''Item''"

text \<open>
  \<^verbatim>\<open>useMenuContext\<close>: the value of \<^verbatim>\<open>useContext(MenuContext)\<close> is the argument
  \<open>context\<close>, \<open>None\<close> for \<^verbatim>\<open>null\<close>; the thrown error is the left summand.
  \<^verbatim>\<open>Error.captureStackTrace\<close> only changes the stack of the error and is left out.
\<close>

definition useMenuContext :: "string \<Rightarrow> 'c option \<Rightarrow> error + 'c" where
  "useMenuContext component context =
     (case context of
        None \<Rightarrow>
          Inl (Error (''<'' @ component @ '' /> is missing a parent <'' @ Menu_name
                        @ '' /> component.''))
      | Some c \<Rightarrow> Inr c)"

text \<open>The first statement of the three sub-components.\<close>

definition Button_context :: "'c option \<Rightarrow> error + 'c" where
  "Button_context context = useMenuContext (join ''.'' [Menu_name, Button_name]) context"

definition Items_context :: "'c option \<Rightarrow> error + 'c" where
  "Items_context context = useMenuContext (join ''.'' [Menu_name, Items_name]) context"

definition Item_context :: "'c option \<Rightarrow> error + 'c" where
  "Item_context context = useMenuContext (join ''.'' [Menu_name, Item_name]) context"

subsection \<open>The resolver of the active index\<close>

text \<open>
  The order in which a scan visits the indices of a collection of \<open>n\<close> entries: \<open>n\<close>
  steps from \<open>start\<close>, forward or backward, cyclically.
\<close>

definition scan_forward :: "nat \<Rightarrow> int \<Rightarrow> nat list" where
  "scan_forward n start = map (\<lambda>k. nat ((start + int k) mod int n)) [0..<n]"

definition scan_backward :: "nat \<Rightarrow> int \<Rightarrow> nat list" where
  "scan_backward n start = map (\<lambda>k. nat ((start - int k) mod int n)) [0..<n]"

text \<open>The first index of the order whose entry is not disabled, or \<^verbatim>\<open>null\<close>.\<close>

definition first_enabled :: "(ref \<Rightarrow> bool) \<Rightarrow> ref list \<Rightarrow> nat list \<Rightarrow> int option" where
  "first_enabled dis xs order = map_option int (List.find (\<lambda>i. \<not> dis (xs ! i)) order)"

text \<open>
  Modelled from the spec: \<^verbatim>\<open>calculateActiveIndex\<close> of
  \<^verbatim>\<open>utils/calculate-active-index\<close>, which is not among the sources. Section 4.2 of
  the specification: \<open>First\<close> is the first non-disabled index or \<^verbatim>\<open>null\<close>, \<open>Last\<close>
  the same from the end; \<open>Next\<close> scans forward cyclically from the index after the
  current one, at most as many steps as the collection has entries, and returns the
  first non-disabled index it meets, \<open>Previous\<close> scans backward; with no current index
  they behave as \<open>First\<close> and \<open>Last\<close>; \<open>Specific\<close> is the index of the item with the
  given id, or the unchanged index if that item is disabled; \<open>Nothing\<close> is
  \<^verbatim>\<open>null\<close>. Where a scan meets no enabled entry the specification allows
  \<^verbatim>\<open>null\<close> or the unchanged index, and the model returns \<^verbatim>\<open>null\<close>; for an id that
  no item has, of which the specification says nothing, it returns the unchanged index.
\<close>

fun calculateActiveIndex :: resolver where
  "calculateActiveIndex First xs cur rid dis =
     first_enabled dis xs (scan_forward (length xs) 0)"
| "calculateActiveIndex Last xs cur rid dis =
     first_enabled dis xs (scan_backward (length xs) (int (length xs) - 1))"
| "calculateActiveIndex Next xs cur rid dis =
     (case cur of
        None \<Rightarrow> first_enabled dis xs (scan_forward (length xs) 0)
      | Some c \<Rightarrow> first_enabled dis xs (scan_forward (length xs) (c + 1)))"
| "calculateActiveIndex Previous xs cur rid dis =
     (case cur of
        None \<Rightarrow> first_enabled dis xs (scan_backward (length xs) (int (length xs) - 1))
      | Some c \<Rightarrow> first_enabled dis xs (scan_backward (length xs) (c - 1)))"
| "calculateActiveIndex (Specific i) xs cur rid dis =
     (let idx = findIndex (\<lambda>x. rid x = i) xs
      in if idx = - 1 then cur else if dis (xs ! nat idx) then cur else Some idx)"
| "calculateActiveIndex Nothing xs cur rid dis = None"

subsection \<open>Invariants\<close>

text \<open>
  The invariant of the active index: \<^verbatim>\<open>null\<close>, or an index into the collection.
\<close>

definition active_index_valid :: "StateDefinition \<Rightarrow> bool" where
  "active_index_valid st =
     (case activeItemIndex st of None \<Rightarrow> True | Some i \<Rightarrow> 0 \<le> i \<and> i < int (length (items st)))"

text \<open>
  The active item of a state: \<^verbatim>\<open>null\<close> without an active index, else the entry
  the index reads, as \<^verbatim>\<open>UnregisterItem\<close> reads its \<^verbatim>\<open>currentActiveItem\<close>.
\<close>

definition active_item :: "StateDefinition \<Rightarrow> jsval" where
  "active_item st =
     (case activeItemIndex st of Some i \<Rightarrow> array_get (items st) i | None \<Rightarrow> Null)"

text \<open>
  The actions that choose an active item themselves: navigation and search. The other
  actions are to keep the active item or to drop it.
\<close>

fun sets_active_item :: "Actions \<Rightarrow> bool" where
  "sets_active_item (GoToItem focus) = True"
| "sets_active_item (Search val) = True"
| "sets_active_item action = False"

text \<open>
  What the reducer needs of a resolver for that invariant: its result is \<^verbatim>\<open>null\<close>,
  an index into the collection it was given, or the current index it was given.
\<close>

definition resolver_in_range :: "resolver \<Rightarrow> bool" where
  "resolver_in_range calc =
     (\<forall>focus xs cur rid dis.
        case calc focus xs cur rid dis of
          None \<Rightarrow> True
        | Some i \<Rightarrow> (0 \<le> i \<and> i < int (length xs)) \<or> cur = Some i)"

text \<open>
  Item objects are created one at a time by \<^verbatim>\<open>RegisterItem\<close>, so the collection of a
  state never holds one object twice, and every object in it was created before the
  next one will be.
\<close>

definition items_ok :: "heap \<Rightarrow> ref \<Rightarrow> bool" where
  "items_ok h state =
     (distinct (items (stateObjs h state)) \<and>
      (\<forall>r \<in> set (items (stateObjs h state)). r < nextRef h))"

subsection \<open>An example store\<close>

text \<open>
  Four cells (references 0 to 3), four item objects \<open>A\<close>, \<open>B\<close>, \<open>C\<close>, \<open>D\<close>
  (references 4 to 7, \<open>B\<close> and \<open>D\<close> disabled) and one state object (reference 8).
\<close>

definition demo_cells :: "ref \<Rightarrow> ItemData" where
  "demo_cells =
     (\<lambda>_. \<lparr>textValue = None, disabled = False\<rparr>)
       (0 := \<lparr>textValue = Some ''pickup'', disabled = False\<rparr>,
        1 := \<lparr>textValue = Some ''home delivery'', disabled = True\<rparr>,
        2 := \<lparr>textValue = Some ''dine in'', disabled = False\<rparr>,
        3 := \<lparr>textValue = Some ''drive through'', disabled = True\<rparr>)"

definition demo_items :: "ref \<Rightarrow> Item" where
  "demo_items =
     (\<lambda>_. \<lparr>item_id = [], dataRef = 0\<rparr>)
       (4 := \<lparr>item_id = ''A'', dataRef = 0\<rparr>,
        5 := \<lparr>item_id = ''B'', dataRef = 1\<rparr>,
        6 := \<lparr>item_id = ''C'', dataRef = 2\<rparr>,
        7 := \<lparr>item_id = ''D'', dataRef = 3\<rparr>)"

definition demo_heap :: "StateDefinition \<Rightarrow> heap" where
  "demo_heap st =
     \<lparr>refCells = demo_cells, itemObjs = demo_items,
      stateObjs = (\<lambda>_. initial_state 0 0)(8 := st), nextRef = 9\<rparr>"

definition demo_state :: "MenuStates \<Rightarrow> ref list \<Rightarrow> string \<Rightarrow> int option \<Rightarrow> StateDefinition" where
  "demo_state m xs q a =
     \<lparr>menuState = m, buttonRef = 0, itemsRef = 0, items = xs, searchQuery = q,
      activeItemIndex = a\<rparr>"

lemmas demo_defs = demo_heap_def demo_state_def demo_items_def demo_cells_def


section \<open>Properties\<close>

subsection \<open>Array operations\<close>

lemma findIndex_lower: "- 1 \<le> findIndex p xs"
  by (induction xs) (auto simp: Let_def)

lemma findIndex_upper: "findIndex p xs < int (length xs)"
  by (induction xs) (auto simp: Let_def)

lemma findIndex_none_iff: "findIndex p xs = - 1 \<longleftrightarrow> (\<forall>x \<in> set xs. \<not> p x)"
proof (induction xs)
  case Nil
  show ?case by simp
next
  case (Cons x xs)
  have "- 1 \<le> findIndex p xs" by (rule findIndex_lower)
  with Cons show ?case by (auto simp: Let_def)
qed

lemma findIndex_hit:
  "findIndex p xs \<noteq> - 1 \<Longrightarrow>
     0 \<le> findIndex p xs \<and> nat (findIndex p xs) < length xs \<and> p (xs ! nat (findIndex p xs))
     \<and> (\<forall>j < nat (findIndex p xs). \<not> p (xs ! j))"
proof (induction xs)
  case Nil
  then show ?case by simp
next
  case (Cons x xs)
  show ?case
  proof (cases "p x")
    case True
    then show ?thesis by simp
  next
    case False
    with Cons.prems have ne: "findIndex p xs \<noteq> - 1"
      by (auto simp: Let_def split: if_splits)
    from Cons.IH [OF ne] have ih: "0 \<le> findIndex p xs" "nat (findIndex p xs) < length xs"
      "p (xs ! nat (findIndex p xs))" "\<forall>j < nat (findIndex p xs). \<not> p (xs ! j)"
      by auto
    have eq: "findIndex p (x # xs) = findIndex p xs + 1"
      using False ne by (simp add: Let_def)
    have n: "nat (findIndex p xs + 1) = Suc (nat (findIndex p xs))"
      using ih(1) by simp
    show ?thesis
      unfolding eq n using ih False
      by (auto simp: nth_Cons split: nat.splits)
  qed
qed

lemma findIndex_first:
  assumes "i < length xs" "p (xs ! i)" "\<forall>j < i. \<not> p (xs ! j)"
  shows "findIndex p xs = int i"
proof -
  have "findIndex p xs \<noteq> - 1"
    using assms(1,2) by (auto simp: findIndex_none_iff)
  from findIndex_hit [OF this] have h: "0 \<le> findIndex p xs" "nat (findIndex p xs) < length xs"
    "p (xs ! nat (findIndex p xs))" "\<forall>j < nat (findIndex p xs). \<not> p (xs ! j)"
    by auto
  have "\<not> nat (findIndex p xs) < i" using assms(3) h(3) by blast
  moreover have "\<not> i < nat (findIndex p xs)" using h(4) assms(2) by blast
  ultimately have "nat (findIndex p xs) = i" by simp
  with h(1) show ?thesis by simp
qed

lemma indexOf_member:
  assumes "x \<in> set xs"
  shows "0 \<le> indexOf xs (Obj x) \<and> nat (indexOf xs (Obj x)) < length xs
         \<and> xs ! nat (indexOf xs (Obj x)) = x"
proof -
  have "findIndex (\<lambda>y. Obj y = Obj x) xs \<noteq> - 1"
    using assms by (auto simp: findIndex_none_iff)
  from findIndex_hit [OF this] show ?thesis by (simp add: indexOf_def)
qed

lemma indexOf_distinct:
  assumes "distinct xs" "i < length xs"
  shows "indexOf xs (Obj (xs ! i)) = int i"
  unfolding indexOf_def
proof (rule findIndex_first [OF assms(2)])
  show "Obj (xs ! i) = Obj (xs ! i)" by simp
  show "\<forall>j<i. Obj (xs ! j) \<noteq> Obj (xs ! i)"
    using assms by (auto simp: nth_eq_iff_index_eq)
qed

lemma indexOf_Undefined: "indexOf xs Undefined = - 1"
  by (simp add: indexOf_def findIndex_none_iff)

lemma splice1_nth:
  assumes "a < length xs" "i < length xs" "a \<noteq> i"
  shows "(if a < i then a else a - 1) < length (splice1 xs (int i))
         \<and> splice1 xs (int i) ! (if a < i then a else a - 1) = xs ! a"
proof (cases "a < i")
  case True
  then show ?thesis using assms by (simp add: splice1_def nth_append)
next
  case False
  with assms have gt: "i < a" by simp
  have len: "length (take i xs) = i" using assms(2) by simp
  have "\<not> a - 1 < i" using gt by simp
  then have "(take i xs @ drop (Suc i) xs) ! (a - 1) = drop (Suc i) xs ! (a - 1 - i)"
    using assms(2) by (simp add: nth_append min_def)
  also have "\<dots> = xs ! (Suc i + (a - 1 - i))" using assms(1) gt by simp
  also have "Suc i + (a - 1 - i) = a" using gt by simp
  finally have "splice1 xs (int i) ! (a - 1) = xs ! a" by (simp add: splice1_def)
  moreover have "a - 1 < length (splice1 xs (int i))"
    using gt assms by (simp add: splice1_def)
  ultimately show ?thesis using False by simp
qed

lemma splice1_distinct:
  assumes "distinct xs"
  shows "distinct (splice1 xs i)"
proof -
  have "set (take (nat i) xs) \<inter> set (drop (Suc (nat i)) xs) = {}"
    using assms by (rule set_take_disj_set_drop_if_distinct) simp
  then show ?thesis using assms by (simp add: splice1_def)
qed

lemma splice1_subset: "set (splice1 xs i) \<subseteq> set xs"
  by (auto simp: splice1_def dest: in_set_takeD in_set_dropD)

subsection \<open>Opening, closing, clearing\<close>

text \<open>
  Claim C6. From a state that is \<open>Open\<close>, \<^verbatim>\<open>CloseMenu\<close> gives a state that is
  \<open>Closed\<close> and has no active index; the items, the search query and the two handles
  are those of the state before.
\<close>

theorem close_menu_resets_active_index:
  assumes "menuState (stateObjs h state) = Open"
  shows "menuState (dispatched calc h state CloseMenu) = Closed
       \<and> activeItemIndex (dispatched calc h state CloseMenu) = None
       \<and> items (dispatched calc h state CloseMenu) = items (stateObjs h state)
       \<and> searchQuery (dispatched calc h state CloseMenu) = searchQuery (stateObjs h state)
       \<and> buttonRef (dispatched calc h state CloseMenu) = buttonRef (stateObjs h state)
       \<and> itemsRef (dispatched calc h state CloseMenu) = itemsRef (stateObjs h state)"
  using assms by (simp add: dispatched_def reducers_CloseMenu_def new_state_def)

theorem close_menu_resets_active_index_witness:
  "menuState (stateObjs (demo_heap (demo_state Open [4, 5, 6] ''di'' (Some 2))) 8) = Open
   \<and> dispatched calculateActiveIndex (demo_heap (demo_state Open [4, 5, 6] ''di'' (Some 2))) 8
       CloseMenu = demo_state Closed [4, 5, 6] ''di'' None"
proof -
  have o: "menuState (stateObjs (demo_heap (demo_state Open [4, 5, 6] ''di'' (Some 2))) 8) = Open"
    by (simp add: demo_heap_def demo_state_def)
  from close_menu_resets_active_index [OF o, of calculateActiveIndex] o show ?thesis
    by (simp add: demo_heap_def demo_state_def)
qed

text \<open>
  Claim C5. A transition that changes nothing returns the state object it was given, in
  the store it was given: \<^verbatim>\<open>OpenMenu\<close> on a state that is \<open>Open\<close>,
  \<^verbatim>\<open>CloseMenu\<close> on a state that is \<open>Closed\<close>, \<^verbatim>\<open>ClearSearch\<close> on a state with
  an empty query. So a second \<^verbatim>\<open>OpenMenu\<close> (or \<^verbatim>\<open>CloseMenu\<close>) returns the object
  the first returned, and the state after two is, by value, the state after one.
\<close>

theorem noop_transitions_return_same_state:
  "(menuState (stateObjs h state) = Open \<longrightarrow> stateReducer calc h state OpenMenu = (state, h))
   \<and> (menuState (stateObjs h state) = Closed \<longrightarrow>
        stateReducer calc h state CloseMenu = (state, h))
   \<and> (searchQuery (stateObjs h state) = [] \<longrightarrow>
        stateReducer calc h state ClearSearch = (state, h))
   \<and> (\<forall>state1 h1. stateReducer calc h state OpenMenu = (state1, h1) \<longrightarrow>
        stateReducer calc h1 state1 OpenMenu = (state1, h1)
        \<and> dispatched calc h1 state1 OpenMenu = dispatched calc h state OpenMenu)
   \<and> (\<forall>state1 h1. stateReducer calc h state CloseMenu = (state1, h1) \<longrightarrow>
        stateReducer calc h1 state1 CloseMenu = (state1, h1)
        \<and> dispatched calc h1 state1 CloseMenu = dispatched calc h state CloseMenu)"
  by (auto simp: dispatched_def reducers_OpenMenu_def reducers_CloseMenu_def
      reducers_ClearSearch_def new_state_def split: if_splits)

theorem noop_transitions_return_same_state_witness:
  "stateReducer calculateActiveIndex (demo_heap (demo_state Open [4, 5] [] None)) 8 OpenMenu
     = (8, demo_heap (demo_state Open [4, 5] [] None))
   \<and> stateReducer calculateActiveIndex (demo_heap (demo_state Open [4, 5] [] None)) 8 ClearSearch
     = (8, demo_heap (demo_state Open [4, 5] [] None))
   \<and> stateReducer calculateActiveIndex (demo_heap (demo_state Closed [4, 5] ''d'' None)) 8 CloseMenu
     = (8, demo_heap (demo_state Closed [4, 5] ''d'' None))
   \<and> dispatched calculateActiveIndex
        (snd (stateReducer calculateActiveIndex (demo_heap (demo_state Closed [4, 5] ''d'' None)) 8
           OpenMenu)) 9 OpenMenu
     = demo_state Open [4, 5] ''d'' None"
proof -
  let ?ho = "demo_heap (demo_state Open [4, 5] [] None)"
  let ?hc = "demo_heap (demo_state Closed [4, 5] ''d'' None)"
  have o: "menuState (stateObjs ?ho 8) = Open" "searchQuery (stateObjs ?ho 8) = []"
    by (simp_all add: demo_heap_def demo_state_def)
  have c: "menuState (stateObjs ?hc 8) = Closed"
    by (simp add: demo_heap_def demo_state_def)
  have first: "stateReducer calculateActiveIndex ?hc 8 OpenMenu
                 = (9, snd (stateReducer calculateActiveIndex ?hc 8 OpenMenu))"
    by (simp add: reducers_OpenMenu_def new_state_def demo_heap_def demo_state_def)
  have once: "dispatched calculateActiveIndex ?hc 8 OpenMenu = demo_state Open [4, 5] ''d'' None"
    by (simp add: dispatched_def reducers_OpenMenu_def new_state_def demo_heap_def
        demo_state_def)
  from noop_transitions_return_same_state [of ?ho 8 calculateActiveIndex] o
    noop_transitions_return_same_state [of ?hc 8 calculateActiveIndex] c first once
  show ?thesis by metis
qed

subsection \<open>Navigation\<close>

text \<open>
  Claim C7. For every resolver, state and focus: when the query is empty and the
  resolved index is the current one, \<^verbatim>\<open>GoToItem\<close> returns the state object it was
  given; otherwise the new state is the old one with an empty query and the resolved
  index.
\<close>

theorem go_to_item_resets_query:
  fixes calc :: resolver
  defines "resolved h state focus \<equiv>
             calc focus (items (stateObjs h state)) (activeItemIndex (stateObjs h state))
               (resolveId h) (resolveDisabled h)"
  shows "(if searchQuery (stateObjs h state) = []
             \<and> resolved h state focus = activeItemIndex (stateObjs h state)
          then stateReducer calc h state (GoToItem focus) = (state, h)
          else dispatched calc h state (GoToItem focus)
                 = (stateObjs h state)\<lparr>searchQuery := [],
                      activeItemIndex := resolved h state focus\<rparr>)"
  by (auto simp: resolved_def dispatched_def reducers_GoToItem_def new_state_def Let_def)

theorem go_to_item_resets_query_witness:
  "stateReducer calculateActiveIndex (demo_heap (demo_state Open [4, 5, 6] [] (Some 0))) 8
     (GoToItem First) = (8, demo_heap (demo_state Open [4, 5, 6] [] (Some 0)))
   \<and> dispatched calculateActiveIndex (demo_heap (demo_state Open [4, 5, 6] ''d'' (Some 0))) 8
       (GoToItem First) = demo_state Open [4, 5, 6] [] (Some 0)
   \<and> dispatched calculateActiveIndex (demo_heap (demo_state Open [4, 5, 6] [] (Some 0))) 8
       (GoToItem Next) = demo_state Open [4, 5, 6] [] (Some 2)"
  using go_to_item_resets_query [of "demo_heap (demo_state Open [4, 5, 6] [] (Some 0))" 8
      calculateActiveIndex First]
    go_to_item_resets_query [of "demo_heap (demo_state Open [4, 5, 6] ''d'' (Some 0))" 8
      calculateActiveIndex First]
    go_to_item_resets_query [of "demo_heap (demo_state Open [4, 5, 6] [] (Some 0))" 8
      calculateActiveIndex Next]
  by (simp add: demo_defs first_enabled_def scan_forward_def resolveDisabled_def)

subsection \<open>Registration\<close>

text \<open>
  Claim C3, as the specification states it, fails: \<^verbatim>\<open>RegisterItem\<close> has no check
  for an id that is already there. With the collection \<open>[A]\<close>, registering the id of
  \<open>A\<close> again gives a collection of two entries, both with that id.
\<close>

theorem register_item_duplicate_counterexample:
  "resolveId (demo_heap (demo_state Open [4] [] None)) 4 = ''A''
   \<and> items (stateObjs (demo_heap (demo_state Open [4] [] None)) 8) = [4]
   \<and> items (dispatched calculateActiveIndex (demo_heap (demo_state Open [4] [] None)) 8
        (RegisterItem ''A'' 0)) = [4, 9]
   \<and> resolveId (snd (stateReducer calculateActiveIndex (demo_heap (demo_state Open [4] [] None)) 8
        (RegisterItem ''A'' 0))) 9 = ''A''"
  by (simp add: dispatched_def reducers_RegisterItem_def new_item_def new_state_def
      resolveId_def demo_defs)

text \<open>
  Claim C3, amended. For every state, id and data reference, \<^verbatim>\<open>RegisterItem\<close>
  appends one new item object with that id and that data reference to the end of the
  collection, whether or not an entry with the id exists; the other fields of the
  state and the cells are unchanged.
\<close>

theorem register_item_appends:
  "(case stateReducer calc h state (RegisterItem aid adataRef) of
      (state', h') \<Rightarrow>
        stateObjs h' state' = (stateObjs h state)\<lparr>items := items (stateObjs h state) @ [nextRef h]\<rparr>
        \<and> itemObjs h' (nextRef h) = \<lparr>item_id = aid, dataRef = adataRef\<rparr>
        \<and> length (items (stateObjs h' state')) = Suc (length (items (stateObjs h state)))
        \<and> refCells h' = refCells h)"
  by (simp add: reducers_RegisterItem_def new_item_def new_state_def Let_def)

subsection \<open>Unregistration\<close>

text \<open>The state after \<^verbatim>\<open>UnregisterItem\<close>, with the local variables of the reducer folded in.\<close>

lemma unregister_state:
  "dispatched calc h state (UnregisterItem d) =
     (let st = stateObjs h state;
          idx = findIndex (\<lambda>a. item_id (itemObjs h a) = d) (items st);
          nextItems' = (if idx \<noteq> - 1 then splice1 (items st) idx else items st)
      in st\<lparr>items := nextItems',
            activeItemIndex :=
              (if Some idx = activeItemIndex st then None
               else case activeItemIndex st of
                      None \<Rightarrow> None
                    | Some i \<Rightarrow> Some (indexOf nextItems' (array_get (items st) i)))\<rparr>)"
  by (simp add: dispatched_def reducers_UnregisterItem_def new_state_def Let_def array_get_def
      split: option.splits)

text \<open>
  Claim C1. When the collection has an entry with id \<open>d\<close>, \<^verbatim>\<open>UnregisterItem\<close>
  removes the first such entry and no other. If that entry was the active one, the new
  active index is \<^verbatim>\<open>null\<close>. Otherwise, if the active index pointed at an entry,
  the new active index points at the same item object in the new collection; with no
  object twice in the collection that is the old index, less one when the removed entry
  came before it. With \<open>[A, B, C]\<close> and \<open>C\<close> active, removing \<open>A\<close> gives \<open>[B, C]\<close>
  and index 1.
\<close>

theorem unregister_item_keeps_active_item:
  fixes calc :: resolver and h :: heap and state :: ref and d :: string
  defines "st \<equiv> stateObjs h state"
      and "st' \<equiv> dispatched calc h state (UnregisterItem d)"
      and "idx \<equiv> findIndex (\<lambda>a. item_id (itemObjs h a) = d) (items (stateObjs h state))"
  assumes present: "\<exists>r \<in> set (items st). item_id (itemObjs h r) = d"
  shows "0 \<le> idx \<and> nat idx < length (items st)
       \<and> item_id (itemObjs h (items st ! nat idx)) = d
       \<and> items st' = take (nat idx) (items st) @ drop (Suc (nat idx)) (items st)
       \<and> (activeItemIndex st = Some idx \<longrightarrow> activeItemIndex st' = None)
       \<and> (activeItemIndex st = None \<longrightarrow> activeItemIndex st' = None)
       \<and> (\<forall>a. activeItemIndex st = Some a \<and> a \<noteq> idx \<and> 0 \<le> a \<and> a < int (length (items st)) \<longrightarrow>
            (\<exists>j. activeItemIndex st' = Some (int j) \<and> j < length (items st')
                 \<and> items st' ! j = items st ! nat a
                 \<and> (distinct (items st) \<longrightarrow> int j = (if a < idx then a else a - 1))))"
proof -
  have ne: "idx \<noteq> - 1"
    using present by (auto simp: idx_def st_def findIndex_none_iff)
  from findIndex_hit [of "\<lambda>a. item_id (itemObjs h a) = d" "items st"] ne
  have hit: "0 \<le> idx" "nat idx < length (items st)"
    "item_id (itemObjs h (items st ! nat idx)) = d"
    by (auto simp: idx_def st_def)
  have its: "items st' = splice1 (items st) idx"
    using ne by (simp add: st'_def unregister_state st_def idx_def Let_def)
  have act_same: "activeItemIndex st = Some idx \<Longrightarrow> activeItemIndex st' = None"
    by (simp add: st'_def unregister_state st_def idx_def Let_def)
  have act_none: "activeItemIndex st = None \<Longrightarrow> activeItemIndex st' = None"
    by (simp add: st'_def unregister_state st_def idx_def Let_def)
  have act_other:
    "\<exists>j. activeItemIndex st' = Some (int j) \<and> j < length (items st')
          \<and> items st' ! j = items st ! nat a
          \<and> (distinct (items st) \<longrightarrow> int j = (if a < idx then a else a - 1))"
    if a: "activeItemIndex st = Some a" "a \<noteq> idx" "0 \<le> a" "a < int (length (items st))" for a
  proof -
    let ?x = "items st ! nat a"
    let ?k = "if nat a < nat idx then nat a else nat a - 1"
    have na: "nat a < length (items st)" "nat a \<noteq> nat idx"
      using a hit(1) by auto
    from splice1_nth [OF na(1) hit(2) na(2)] hit(1)
    have k: "?k < length (splice1 (items st) idx)" "splice1 (items st) idx ! ?k = ?x"
      by auto
    then have mem: "?x \<in> set (splice1 (items st) idx)"
      by (metis nth_mem)
    have act: "activeItemIndex st' = Some (indexOf (splice1 (items st) idx) (Obj ?x))"
      using a ne by (simp add: st'_def unregister_state st_def idx_def Let_def array_get_def)
    let ?j = "nat (indexOf (splice1 (items st) idx) (Obj ?x))"
    from indexOf_member [OF mem]
    have j: "0 \<le> indexOf (splice1 (items st) idx) (Obj ?x)" "?j < length (splice1 (items st) idx)"
      "splice1 (items st) idx ! ?j = ?x"
      by auto
    have dj: "distinct (items st) \<longrightarrow> int ?j = (if a < idx then a else a - 1)"
    proof
      assume d: "distinct (items st)"
      have "distinct (splice1 (items st) idx)" using d by (rule splice1_distinct)
      from indexOf_distinct [OF this k(1)] k(2)
      have "indexOf (splice1 (items st) idx) (Obj ?x) = int ?k" by simp
      then show "int ?j = (if a < idx then a else a - 1)" using a hit(1) by auto
    qed
    have "activeItemIndex st' = Some (int ?j)" using act j(1) by simp
    moreover have "?j < length (items st')" using j(2) its by simp
    moreover have "items st' ! ?j = items st ! nat a" using j(3) its by simp
    ultimately show ?thesis using dj by blast
  qed
  show ?thesis
    using hit its act_same act_none act_other by (simp add: splice1_def)
qed

theorem unregister_item_keeps_active_item_witness:
  "item_id (itemObjs (demo_heap (demo_state Open [4, 5, 6] [] (Some 2)))
       (items (stateObjs (demo_heap (demo_state Open [4, 5, 6] [] (Some 2))) 8) ! 0)) = ''A''
   \<and> dispatched calculateActiveIndex (demo_heap (demo_state Open [4, 5, 6] [] (Some 2))) 8
        (UnregisterItem ''A'') = demo_state Open [5, 6] [] (Some 1)"
proof -
  let ?h = "demo_heap (demo_state Open [4, 5, 6] [] (Some 2))"
  have p: "\<exists>r \<in> set (items (stateObjs ?h 8)). item_id (itemObjs ?h r) = ''A''"
    by (simp add: demo_defs)
  have idx: "findIndex (\<lambda>a. item_id (itemObjs ?h a) = ''A'') (items (stateObjs ?h 8)) = 0"
    by (simp add: demo_defs)
  have rest: "menuState (dispatched calculateActiveIndex ?h 8 (UnregisterItem ''A'')) = Open"
    "searchQuery (dispatched calculateActiveIndex ?h 8 (UnregisterItem ''A'')) = []"
    "buttonRef (dispatched calculateActiveIndex ?h 8 (UnregisterItem ''A'')) = 0"
    "itemsRef (dispatched calculateActiveIndex ?h 8 (UnregisterItem ''A'')) = 0"
    by (simp_all add: dispatched_def reducers_UnregisterItem_def new_state_def Let_def demo_defs)
  from unregister_item_keeps_active_item [OF p, of calculateActiveIndex, unfolded idx]
  have "items (dispatched calculateActiveIndex ?h 8 (UnregisterItem ''A'')) = [5, 6]"
    "activeItemIndex (dispatched calculateActiveIndex ?h 8 (UnregisterItem ''A'')) = Some 1"
    by (auto simp: demo_defs)
  moreover have "item_id (itemObjs ?h (items (stateObjs ?h 8) ! 0)) = ''A''"
    by (simp add: demo_defs)
  ultimately show ?thesis
    using rest by (simp add: demo_state_def)
qed

text \<open>
  Claim C10. When no entry of the collection has the id \<open>d\<close>, \<^verbatim>\<open>UnregisterItem\<close>
  leaves the collection as it was. Without an active index there is none afterwards.
  An active index that pointed at an entry points at the same item object afterwards,
  and it is the same index when no item object is in the collection twice (as in every
  state the reducer builds from the initial one, see \<open>items_ok_preserved\<close>).
\<close>

theorem unregister_unknown_id_changes_nothing:
  fixes calc :: resolver and h :: heap and state :: ref and d :: string
  defines "st \<equiv> stateObjs h state"
      and "st' \<equiv> dispatched calc h state (UnregisterItem d)"
  assumes absent: "\<forall>r \<in> set (items st). item_id (itemObjs h r) \<noteq> d"
  shows "items st' = items st
       \<and> (activeItemIndex st = None \<longrightarrow> activeItemIndex st' = None)
       \<and> (\<forall>a. activeItemIndex st = Some a \<and> 0 \<le> a \<and> a < int (length (items st)) \<longrightarrow>
            active_item st' = active_item st
            \<and> (distinct (items st) \<longrightarrow> activeItemIndex st' = Some a \<and> st' = st))"
proof -
  have idx: "findIndex (\<lambda>a. item_id (itemObjs h a) = d) (items st) = - 1"
    using absent by (simp add: findIndex_none_iff)
  have its: "items st' = items st"
    using idx by (simp add: st'_def unregister_state Let_def flip: st_def)
  have none: "activeItemIndex st = None \<Longrightarrow> activeItemIndex st' = None"
    using idx by (simp add: st'_def unregister_state Let_def flip: st_def)
  have some: "active_item st' = active_item st
              \<and> (distinct (items st) \<longrightarrow> activeItemIndex st' = Some a \<and> st' = st)"
    if a: "activeItemIndex st = Some a" "0 \<le> a" "a < int (length (items st))" for a
  proof -
    let ?x = "items st ! nat a"
    let ?j = "indexOf (items st) (Obj ?x)"
    have na: "nat a < length (items st)" using a by simp
    have act: "activeItemIndex st' = Some ?j"
      using a idx by (simp add: st'_def unregister_state Let_def array_get_def flip: st_def)
    from indexOf_member [of ?x "items st"] na
    have j: "0 \<le> ?j" "nat ?j < length (items st)" "items st ! nat ?j = ?x"
      by simp_all
    have same: "active_item st' = active_item st"
      using act its a j by (simp add: active_item_def array_get_def)
    have "activeItemIndex st' = Some a \<and> st' = st" if dist: "distinct (items st)"
    proof -
      from indexOf_distinct [OF dist na] a(2) have "?j = a" by simp
      with act a(1) have e: "activeItemIndex st' = activeItemIndex st" by simp
      have "st' = st\<lparr>items := items st', activeItemIndex := activeItemIndex st'\<rparr>"
        by (simp add: st'_def unregister_state Let_def flip: st_def)
      with e its a(1) show ?thesis by simp
    qed
    with same show ?thesis by blast
  qed
  from its none some show ?thesis by blast
qed

theorem unregister_unknown_id_changes_nothing_witness:
  "distinct (items (stateObjs (demo_heap (demo_state Open [4, 5, 6] ''p'' (Some 2))) 8))
   \<and> dispatched calculateActiveIndex (demo_heap (demo_state Open [4, 5, 6] ''p'' (Some 2))) 8
        (UnregisterItem ''D'') = demo_state Open [4, 5, 6] ''p'' (Some 2)"
proof -
  let ?h = "demo_heap (demo_state Open [4, 5, 6] ''p'' (Some 2))"
  have a: "\<forall>r \<in> set (items (stateObjs ?h 8)). item_id (itemObjs ?h r) \<noteq> ''D''"
    by (simp add: demo_defs)
  have v: "activeItemIndex (stateObjs ?h 8) = Some 2 \<and> (0::int) \<le> 2
           \<and> 2 < int (length (items (stateObjs ?h 8)))"
    by (simp add: demo_defs)
  have d: "distinct (items (stateObjs ?h 8))"
    by (simp add: demo_defs)
  have s: "stateObjs ?h 8 = demo_state Open [4, 5, 6] ''p'' (Some 2)"
    by (simp add: demo_heap_def)
  from unregister_unknown_id_changes_nothing [OF a, of calculateActiveIndex] v d
  have "dispatched calculateActiveIndex ?h 8 (UnregisterItem ''D'') = stateObjs ?h 8"
    by blast
  with d s show ?thesis by simp
qed

subsection \<open>The resolver stays in range\<close>

lemma first_enabled_in_order:
  "first_enabled dis xs order = Some i \<Longrightarrow> \<exists>k \<in> set order. i = int k \<and> \<not> dis (xs ! k)"
  by (auto simp: first_enabled_def find_Some_iff)

lemma nat_mod_less: "0 < n \<Longrightarrow> nat (z mod int n) < n"
proof -
  assume "0 < n"
  then have "0 \<le> z mod int n" "z mod int n < int n" by simp_all
  then show ?thesis by linarith
qed

lemma scan_forward_range: "k \<in> set (scan_forward n start) \<Longrightarrow> k < n"
  by (auto simp: scan_forward_def intro: nat_mod_less)

lemma scan_backward_range: "k \<in> set (scan_backward n start) \<Longrightarrow> k < n"
  by (auto simp: scan_backward_def intro: nat_mod_less)

lemma calculateActiveIndex_in_range: "resolver_in_range calculateActiveIndex"
  unfolding resolver_in_range_def
proof (intro allI)
  fix focus xs cur rid dis
  show "case calculateActiveIndex focus xs cur rid dis of
          None \<Rightarrow> True
        | Some i \<Rightarrow> (0 \<le> i \<and> i < int (length xs)) \<or> cur = Some i"
  proof (cases focus)
    case (Specific d)
    have "findIndex (\<lambda>x. rid x = d) xs < int (length xs)" by (rule findIndex_upper)
    moreover have "- 1 \<le> findIndex (\<lambda>x. rid x = d) xs" by (rule findIndex_lower)
    ultimately show ?thesis
      using Specific by (auto simp: Let_def split: option.splits)
  qed (auto split: option.splits dest!: first_enabled_in_order
        dest: scan_forward_range scan_backward_range)
qed

subsection \<open>Invariants of the reducer\<close>

lemma unregister_valid:
  assumes "active_index_valid (stateObjs h state)"
  shows "active_index_valid (dispatched calc h state (UnregisterItem d))
         \<and> (active_item (dispatched calc h state (UnregisterItem d))
              = active_item (stateObjs h state)
            \<or> active_item (dispatched calc h state (UnregisterItem d)) = Null)"
proof -
  let ?st = "stateObjs h state"
  let ?idx = "findIndex (\<lambda>a. item_id (itemObjs h a) = d) (items ?st)"
  let ?next = "if ?idx \<noteq> - 1 then splice1 (items ?st) ?idx else items ?st"
  show ?thesis
  proof (cases "activeItemIndex ?st")
    case None
    then show ?thesis
      by (simp add: unregister_state Let_def active_index_valid_def active_item_def)
  next
    case (Some a)
    with assms have a: "0 \<le> a" "nat a < length (items ?st)" "a < int (length (items ?st))"
      by (auto simp: active_index_valid_def)
    show ?thesis
    proof (cases "?idx = a")
      case True
      then show ?thesis
        using Some by (simp add: unregister_state Let_def active_index_valid_def active_item_def)
    next
      case False
      have mem: "items ?st ! nat a \<in> set ?next"
      proof (cases "?idx = - 1")
        case True
        then show ?thesis using a(2) by simp
      next
        case ne: False
        from findIndex_hit [OF ne] have i: "0 \<le> ?idx" "nat ?idx < length (items ?st)"
          by auto
        have "nat a \<noteq> nat ?idx" using False a(1) i(1) by simp
        from splice1_nth [OF a(2) i(2) this]
        have "\<exists>k < length (splice1 (items ?st) (int (nat ?idx))).
                 splice1 (items ?st) (int (nat ?idx)) ! k = items ?st ! nat a"
          by blast
        then have "items ?st ! nat a \<in> set (splice1 (items ?st) (int (nat ?idx)))"
          by (auto simp: in_set_conv_nth)
        then show ?thesis using i(1) ne by simp
      qed
      let ?j = "indexOf ?next (Obj (items ?st ! nat a))"
      from indexOf_member [OF mem]
      have j: "0 \<le> ?j" "?j < int (length ?next)" "?next ! nat ?j = items ?st ! nat a"
        by auto
      have st': "dispatched calc h state (UnregisterItem d)
                  = ?st\<lparr>items := ?next, activeItemIndex := Some ?j\<rparr>"
        using Some False a by (simp add: unregister_state Let_def array_get_def)
      have "active_index_valid (dispatched calc h state (UnregisterItem d))"
        unfolding st' using j by (simp add: active_index_valid_def)
      moreover have "active_item (dispatched calc h state (UnregisterItem d)) = active_item ?st"
        unfolding st' using j Some a by (simp add: active_item_def array_get_def)
      ultimately show ?thesis by simp
    qed
  qed
qed

lemma search_valid:
  assumes "active_index_valid (stateObjs h state)"
  shows "active_index_valid (dispatched calc h state (Search val))"
proof -
  let ?st = "stateObjs h state"
  let ?m = "findIndex (search_matches h (searchQuery ?st @ val)) (items ?st)"
  have "- 1 \<le> ?m" "?m < int (length (items ?st))"
    by (rule findIndex_lower, rule findIndex_upper)
  then show ?thesis
    using assms
    by (auto simp: dispatched_def reducers_Search_def new_state_def Let_def
        active_index_valid_def split: option.splits)
qed

lemma go_to_item_valid:
  assumes "resolver_in_range calc" "active_index_valid (stateObjs h state)"
  shows "active_index_valid (dispatched calc h state (GoToItem focus))"
proof -
  let ?st = "stateObjs h state"
  let ?r = "calc focus (items ?st) (activeItemIndex ?st) (resolveId h) (resolveDisabled h)"
  from assms(1) have "case ?r of None \<Rightarrow> True
    | Some i \<Rightarrow> (0 \<le> i \<and> i < int (length (items ?st))) \<or> activeItemIndex ?st = Some i"
    unfolding resolver_in_range_def by blast
  then show ?thesis
    using assms(2)
    by (auto simp: dispatched_def reducers_GoToItem_def new_state_def Let_def
        active_index_valid_def split: option.splits)
qed

text \<open>
  Claim C9. With a resolver whose result is \<^verbatim>\<open>null\<close>, an index into the collection
  or the current index, every action takes a state whose active index is \<^verbatim>\<open>null\<close>
  or an index into the collection to a state of that kind. Every action but navigation
  and search leaves the active index at the same item object or makes it \<^verbatim>\<open>null\<close>.
\<close>

theorem active_index_stays_valid:
  assumes "resolver_in_range calc" and "active_index_valid (stateObjs h state)"
  shows "active_index_valid (dispatched calc h state action)
       \<and> (\<not> sets_active_item action \<longrightarrow>
            active_item (dispatched calc h state action) = active_item (stateObjs h state)
            \<or> active_item (dispatched calc h state action) = Null)"
proof (cases action)
  case CloseMenu
  then show ?thesis
    using assms(2)
    by (auto simp: dispatched_def reducers_CloseMenu_def new_state_def active_index_valid_def
        active_item_def split: option.splits)
next
  case OpenMenu
  then show ?thesis
    using assms(2)
    by (auto simp: dispatched_def reducers_OpenMenu_def new_state_def active_index_valid_def
        active_item_def split: option.splits)
next
  case (GoToItem focus)
  then show ?thesis using assms by (simp add: go_to_item_valid)
next
  case (Search val)
  then show ?thesis using assms(2) by (simp add: search_valid)
next
  case ClearSearch
  then show ?thesis
    using assms(2)
    by (auto simp: dispatched_def reducers_ClearSearch_def new_state_def active_index_valid_def
        active_item_def split: option.splits)
next
  case (RegisterItem aid adataRef)
  then show ?thesis
    using assms(2)
    by (auto simp: dispatched_def reducers_RegisterItem_def new_item_def new_state_def
        Let_def active_index_valid_def active_item_def array_get_def nth_append
        split: option.splits)
next
  case (UnregisterItem d)
  then show ?thesis using assms(2) unregister_valid [of h state calc d] by simp
qed

theorem active_index_stays_valid_witness:
  "resolver_in_range calculateActiveIndex
   \<and> active_index_valid (stateObjs (demo_heap (demo_state Open [4, 5, 6, 7] [] (Some 3))) 8)
   \<and> active_index_valid (dispatched calculateActiveIndex
        (demo_heap (demo_state Open [4, 5, 6, 7] [] (Some 3))) 8 (UnregisterItem ''A''))
   \<and> activeItemIndex (dispatched calculateActiveIndex
        (demo_heap (demo_state Open [4, 5, 6, 7] [] (Some 3))) 8 (UnregisterItem ''A'')) = Some 2
   \<and> active_item (dispatched calculateActiveIndex
        (demo_heap (demo_state Open [4, 5, 6, 7] [] (Some 3))) 8 (UnregisterItem ''A'')) = Obj 7
   \<and> active_item (stateObjs (demo_heap (demo_state Open [4, 5, 6, 7] [] (Some 3))) 8) = Obj 7"
proof -
  let ?h = "demo_heap (demo_state Open [4, 5, 6, 7] [] (Some 3))"
  have v: "active_index_valid (stateObjs ?h 8)"
    by (simp add: active_index_valid_def demo_defs)
  have i: "activeItemIndex (dispatched calculateActiveIndex ?h 8 (UnregisterItem ''A'')) = Some 2"
    by (simp add: unregister_state Let_def demo_defs splice1_def array_get_def indexOf_def)
  have o: "active_item (stateObjs ?h 8) = Obj 7"
    by (simp add: active_item_def array_get_def demo_defs)
  have n: "active_item (dispatched calculateActiveIndex ?h 8 (UnregisterItem ''A'')) \<noteq> Null"
    by (simp add: active_item_def unregister_state Let_def demo_defs splice1_def array_get_def
        indexOf_def)
  from active_index_stays_valid [OF calculateActiveIndex_in_range v, of "UnregisterItem ''A''"]
    calculateActiveIndex_in_range v i o n
  show ?thesis by simp
qed

lemma new_state_items_ok:
  assumes "new_state h st = (state', h')" "distinct (items st)"
    "\<forall>r \<in> set (items st). r < nextRef h"
  shows "items_ok h' state'"
proof -
  from assms(1) have e: "state' = nextRef h" "nextRef h' = Suc (nextRef h)"
    "stateObjs h' state' = st"
    by (auto simp: new_state_def)
  have "\<forall>r \<in> set (items st). r < Suc (nextRef h)"
    using assms(3) less_SucI by blast
  then show ?thesis
    using assms(2) e by (simp add: items_ok_def)
qed

lemma items_ok_preserved:
  assumes "items_ok h state" and "stateReducer calc h state action = (state', h')"
  shows "items_ok h' state'"
proof -
  let ?st = "stateObjs h state"
  from assms(1) have d: "distinct (items ?st)" and b: "\<forall>r \<in> set (items ?st). r < nextRef h"
    by (simp_all add: items_ok_def)
  show ?thesis
  proof (cases action)
    case CloseMenu
    with assms d b show ?thesis
      by (auto simp: reducers_CloseMenu_def split: if_splits intro: new_state_items_ok)
  next
    case OpenMenu
    with assms d b show ?thesis
      by (auto simp: reducers_OpenMenu_def split: if_splits intro: new_state_items_ok)
  next
    case (GoToItem focus)
    with assms d b show ?thesis
      by (auto simp: reducers_GoToItem_def Let_def split: if_splits intro: new_state_items_ok)
  next
    case (Search val)
    with assms d b show ?thesis
      by (auto simp: reducers_Search_def Let_def split: if_splits intro: new_state_items_ok)
  next
    case ClearSearch
    with assms d b show ?thesis
      by (auto simp: reducers_ClearSearch_def split: if_splits intro: new_state_items_ok)
  next
    case (RegisterItem aid adataRef)
    let ?h1 = "h\<lparr>itemObjs := (itemObjs h)(nextRef h := \<lparr>item_id = aid, dataRef = adataRef\<rparr>),
                  nextRef := Suc (nextRef h)\<rparr>"
    have r: "new_state ?h1 (?st\<lparr>items := items ?st @ [nextRef h]\<rparr>) = (state', h')"
      using RegisterItem assms(2) by (simp add: reducers_RegisterItem_def new_item_def Let_def)
    have "distinct (items ?st @ [nextRef h])" using d b by auto
    moreover have "\<forall>r \<in> set (items ?st @ [nextRef h]). r < nextRef ?h1"
      using b by (auto intro: less_SucI)
    ultimately show ?thesis
      using new_state_items_ok [OF r] by simp
  next
    case (UnregisterItem aid)
    let ?idx = "findIndex (\<lambda>a. item_id (itemObjs h a) = aid) (items ?st)"
    let ?next = "if ?idx \<noteq> - 1 then splice1 (items ?st) ?idx else items ?st"
    have "\<exists>act. new_state h (?st\<lparr>items := ?next, activeItemIndex := act\<rparr>) = (state', h')"
      using UnregisterItem assms(2) by (auto simp: reducers_UnregisterItem_def Let_def)
    then obtain act
      where r: "new_state h (?st\<lparr>items := ?next, activeItemIndex := act\<rparr>) = (state', h')"
      by blast
    have "distinct ?next" using d by (simp add: splice1_distinct)
    moreover have "\<forall>r \<in> set ?next. r < nextRef h"
      using b splice1_subset [of "items ?st" ?idx] by auto
    ultimately show ?thesis
      using new_state_items_ok [OF r] by simp
  qed
qed

lemma items_ok_initial: "stateObjs h state = initial_state b i \<Longrightarrow> items_ok h state"
  by (simp add: items_ok_def initial_state_def)

lemma active_index_valid_initial: "active_index_valid (initial_state b i)"
  by (simp add: active_index_valid_def initial_state_def)

subsection \<open>Cyclic scans of the resolver\<close>

lemma int_mod_wrap_up:
  fixes n x :: int
  assumes "n \<le> x" "x < 2 * n"
  shows "x mod n = x - n"
  by (rule int_mod_pos_eq [where q = 1]) (use assms in auto)

lemma int_mod_wrap_down:
  fixes n x :: int
  assumes "- n \<le> x" "x < 0"
  shows "x mod n = x + n"
  by (rule int_mod_pos_eq [where q = "- 1"]) (use assms in auto)

lemma first_enabled_none_iff:
  "first_enabled dis xs order = None \<longleftrightarrow> (\<forall>k \<in> set order. dis (xs ! k))"
  by (auto simp: first_enabled_def find_None_iff)

lemma first_enabled_at:
  assumes "d < n" "\<not> dis (xs ! g d)" "\<forall>d' < d. dis (xs ! g d')"
  shows "first_enabled dis xs (map g [0..<n]) = Some (int (g d))"
proof -
  have "List.find (\<lambda>i. \<not> dis (xs ! i)) (map g [0..<n]) = Some (g d)"
    unfolding find_Some_iff
    using assms by (intro exI [of _ d]) auto
  then show ?thesis by (simp add: first_enabled_def)
qed

lemma scan_forward_covers:
  assumes "e < n"
  shows "e \<in> set (scan_forward n start)"
proof -
  have n: "0 < n" using assms by simp
  let ?k = "nat ((int e - start) mod int n)"
  have k: "?k < n" using n by (rule nat_mod_less)
  have "int ?k = (int e - start) mod int n" using n by simp
  then have "(start + int ?k) mod int n = (start + (int e - start)) mod int n"
    by (simp add: mod_add_right_eq)
  also have "\<dots> = int e" using assms by simp
  finally have "nat ((start + int ?k) mod int n) = e" by simp
  with k show ?thesis
    unfolding scan_forward_def by (metis (no_types, lifting) atLeast0LessThan imageI image_set lessThan_iff set_upt)
qed

lemma scan_backward_covers:
  assumes "e < n"
  shows "e \<in> set (scan_backward n start)"
proof -
  have n: "0 < n" using assms by simp
  let ?k = "nat ((start - int e) mod int n)"
  have k: "?k < n" using n by (rule nat_mod_less)
  have "int ?k = (start - int e) mod int n" using n by simp
  then have "(start - int ?k) mod int n = (start - (start - int e)) mod int n"
    by (simp add: mod_diff_right_eq)
  also have "\<dots> = int e" using assms by simp
  finally have "nat ((start - int ?k) mod int n) = e" by simp
  with k show ?thesis
    unfolding scan_backward_def by (metis (no_types, lifting) atLeast0LessThan imageI image_set lessThan_iff set_upt)
qed

lemma next_wraps:
  assumes fl: "f \<le> l" "l < n"
      and f: "\<not> dis (xs ! f)" "\<forall>j < f. dis (xs ! j)"
      and l: "\<forall>j. l < j \<and> j < n \<longrightarrow> dis (xs ! j)"
  shows "first_enabled dis xs (scan_forward n (int l + 1)) = Some (int f)"
proof -
  let ?g = "\<lambda>k. nat ((int l + 1 + int k) mod int n)"
  let ?d = "n - 1 - l + f"
  have d: "?d < n" using fl by simp
  have gd: "?g ?d = f"
  proof -
    have "int l + 1 + int ?d = int f + int n" using fl by simp
    then have "(int l + 1 + int ?d) mod int n = int f mod int n" by simp
    also have "\<dots> = int f" using fl by simp
    finally show ?thesis by simp
  qed
  have before: "dis (xs ! ?g d')" if "d' < ?d" for d'
  proof (cases "l + 1 + d' < n")
    case True
    then have "(int l + 1 + int d') mod int n = int (l + 1 + d')" by simp
    then have "?g d' = l + 1 + d'" by simp
    with True l show ?thesis by simp
  next
    case False
    then have "int n \<le> int l + 1 + int d'" "int l + 1 + int d' < 2 * int n"
      using that fl by simp_all
    then have "(int l + 1 + int d') mod int n = int l + 1 + int d' - int n"
      by (rule int_mod_wrap_up)
    then have "?g d' = l + 1 + d' - n" by simp
    moreover have "l + 1 + d' - n < f" using that False fl by simp
    ultimately show ?thesis using f(2) by simp
  qed
  have b: "\<forall>d' < ?d. dis (xs ! ?g d')" using before by blast
  have e: "\<not> dis (xs ! ?g ?d)" unfolding gd by (rule f(1))
  have "first_enabled dis xs (map ?g [0..<n]) = Some (int (?g ?d))"
    using d e b by (rule first_enabled_at [of ?d n dis xs ?g])
  then show ?thesis by (simp only: gd scan_forward_def)
qed

lemma previous_wraps:
  assumes fl: "f \<le> l" "l < n"
      and f: "\<forall>j < f. dis (xs ! j)"
      and l: "\<not> dis (xs ! l)" "\<forall>j. l < j \<and> j < n \<longrightarrow> dis (xs ! j)"
  shows "first_enabled dis xs (scan_backward n (int f - 1)) = Some (int l)"
proof -
  let ?g = "\<lambda>k. nat ((int f - 1 - int k) mod int n)"
  let ?d = "n - 1 - l + f"
  have d: "?d < n" using fl by simp
  have gd: "?g ?d = l"
  proof -
    have "int f - 1 - int ?d = int l - int n" using fl by simp
    then have "(int f - 1 - int ?d) mod int n = int l mod int n" by simp
    also have "\<dots> = int l" using fl by simp
    finally show ?thesis by simp
  qed
  have before: "dis (xs ! ?g d')" if "d' < ?d" for d'
  proof (cases "d' < f")
    case True
    then have "(int f - 1 - int d') mod int n = int (f - 1 - d')"
      using fl by (simp add: of_nat_diff)
    then have "?g d' = f - 1 - d'" by simp
    with True f show ?thesis by simp
  next
    case False
    then have "- int n \<le> int f - 1 - int d'" "int f - 1 - int d' < 0"
      using that fl by simp_all
    then have "(int f - 1 - int d') mod int n = int f - 1 - int d' + int n"
      by (rule int_mod_wrap_down)
    then have "?g d' = n + f - 1 - d'" using that by simp
    moreover have "l < n + f - 1 - d'" "n + f - 1 - d' < n" using that False fl by simp_all
    ultimately show ?thesis using l(2) by simp
  qed
  have b: "\<forall>d' < ?d. dis (xs ! ?g d')" using before by blast
  have e: "\<not> dis (xs ! ?g ?d)" unfolding gd by (rule l(1))
  have "first_enabled dis xs (map ?g [0..<n]) = Some (int (?g ?d))"
    using d e b by (rule first_enabled_at [of ?d n dis xs ?g])
  then show ?thesis by (simp only: gd scan_backward_def)
qed

lemma first_enabled_forward_some:
  assumes "e < length xs" "\<not> dis (xs ! e)"
  shows "\<exists>j < length xs. \<not> dis (xs ! j)
           \<and> first_enabled dis xs (scan_forward (length xs) s) = Some (int j)"
proof -
  have "e \<in> set (scan_forward (length xs) s)" using assms(1) by (rule scan_forward_covers)
  with assms(2) have "first_enabled dis xs (scan_forward (length xs) s) \<noteq> None"
    by (auto simp: first_enabled_none_iff)
  then obtain i where i: "first_enabled dis xs (scan_forward (length xs) s) = Some i"
    by blast
  from first_enabled_in_order [OF i] scan_forward_range show ?thesis
    using i by blast
qed

lemma first_enabled_backward_some:
  assumes "e < length xs" "\<not> dis (xs ! e)"
  shows "\<exists>j < length xs. \<not> dis (xs ! j)
           \<and> first_enabled dis xs (scan_backward (length xs) s) = Some (int j)"
proof -
  have "e \<in> set (scan_backward (length xs) s)" using assms(1) by (rule scan_backward_covers)
  with assms(2) have "first_enabled dis xs (scan_backward (length xs) s) \<noteq> None"
    by (auto simp: first_enabled_none_iff)
  then obtain i where i: "first_enabled dis xs (scan_backward (length xs) s) = Some i"
    by blast
  from first_enabled_in_order [OF i] scan_backward_range show ?thesis
    using i by blast
qed

lemma first_enabled_forward_none:
  "\<forall>i < length xs. dis (xs ! i) \<Longrightarrow> first_enabled dis xs (scan_forward (length xs) s) = None"
  by (auto simp: first_enabled_none_iff dest: scan_forward_range)

lemma first_enabled_backward_none:
  "\<forall>i < length xs. dis (xs ! i) \<Longrightarrow> first_enabled dis xs (scan_backward (length xs) s) = None"
  by (auto simp: first_enabled_none_iff dest: scan_backward_range)

lemma go_to_item_index:
  "activeItemIndex (dispatched calc h state (GoToItem focus)) =
     calc focus (items (stateObjs h state)) (activeItemIndex (stateObjs h state))
       (resolveId h) (resolveDisabled h)"
  by (simp add: dispatched_def reducers_GoToItem_def new_state_def Let_def)

text \<open>
  Claim C2. An index is enabled when it is an index of the collection and its item is
  not disabled. If \<open>f\<close> is the first and \<open>l\<close> the last enabled index, \<^verbatim>\<open>Next\<close>
  from \<open>l\<close> gives \<open>f\<close> and \<^verbatim>\<open>Previous\<close> from \<open>f\<close> gives \<open>l\<close>. Whenever some
  index is enabled, \<^verbatim>\<open>Next\<close> and \<^verbatim>\<open>Previous\<close> give an enabled index, whatever
  the current index is. When no index is enabled, both give \<^verbatim>\<open>null\<close>.
\<close>

theorem next_previous_wrap_and_skip_disabled:
  fixes h :: heap and state :: ref
  defines "st \<equiv> stateObjs h state"
      and "enabled \<equiv> \<lambda>i. i < length (items (stateObjs h state))
                          \<and> \<not> resolveDisabled h (items (stateObjs h state) ! i)"
      and "go \<equiv> \<lambda>focus.
                 activeItemIndex (dispatched calculateActiveIndex h state (GoToItem focus))"
  shows "(\<forall>f l. enabled f \<and> (\<forall>j < f. \<not> enabled j) \<and> enabled l \<and> (\<forall>j > l. \<not> enabled j) \<longrightarrow>
            (activeItemIndex st = Some (int l) \<longrightarrow> go Next = Some (int f))
            \<and> (activeItemIndex st = Some (int f) \<longrightarrow> go Previous = Some (int l)))
       \<and> ((\<exists>i. enabled i) \<longrightarrow>
            (\<exists>j. enabled j \<and> go Next = Some (int j))
            \<and> (\<exists>j. enabled j \<and> go Previous = Some (int j)))
       \<and> ((\<forall>i. \<not> enabled i) \<longrightarrow> go Next = None \<and> go Previous = None)"
proof (intro conjI allI impI)
  let ?xs = "items st"
  let ?dis = "resolveDisabled h"
  let ?n = "length ?xs"
  have en: "enabled i \<longleftrightarrow> i < ?n \<and> \<not> ?dis (?xs ! i)" for i
    by (simp add: enabled_def st_def)
  have go: "go focus = calculateActiveIndex focus ?xs (activeItemIndex st) (resolveId h) ?dis"
    for focus
    by (simp add: go_def st_def go_to_item_index)
  {
    fix f l
    assume a: "enabled f \<and> (\<forall>j < f. \<not> enabled j) \<and> enabled l \<and> (\<forall>j > l. \<not> enabled j)"
    then have fl: "f \<le> l" "l < ?n"
      using en by (meson not_le_imp_less, blast)
    from a en have f: "\<not> ?dis (?xs ! f)" "\<forall>j < f. ?dis (?xs ! j)"
      using fl by (blast, metis le_less_trans less_imp_le_nat)
    from a en have l: "\<not> ?dis (?xs ! l)" "\<forall>j. l < j \<and> j < ?n \<longrightarrow> ?dis (?xs ! j)"
      by blast+
    {
      assume "activeItemIndex st = Some (int l)"
      then show "go Next = Some (int f)"
        using next_wraps [of f l ?n ?dis ?xs] fl f l(2) by (simp add: go)
    next
      assume "activeItemIndex st = Some (int f)"
      then show "go Previous = Some (int l)"
        using previous_wraps [of f l ?n ?dis ?xs] fl f(2) l by (simp add: go)
    }
  next
    assume "\<exists>i. enabled i"
    then obtain e where e: "e < ?n" "\<not> ?dis (?xs ! e)" using en by blast
    show "\<exists>j. enabled j \<and> go Next = Some (int j)"
      using first_enabled_forward_some [of e ?xs ?dis] e en
      by (cases "activeItemIndex st") (auto simp: go)
    show "\<exists>j. enabled j \<and> go Previous = Some (int j)"
      using first_enabled_backward_some [of e ?xs ?dis] e en
      by (cases "activeItemIndex st") (auto simp: go)
  next
    assume "\<forall>i. \<not> enabled i"
    then have d: "\<forall>i < ?n. ?dis (?xs ! i)" using en by blast
    show "go Next = None"
      using first_enabled_forward_none [of ?xs ?dis] d
      by (cases "activeItemIndex st") (auto simp: go)
    show "go Previous = None"
      using first_enabled_backward_none [of ?xs ?dis] d
      by (cases "activeItemIndex st") (auto simp: go)
  }
qed

theorem next_previous_wrap_and_skip_disabled_witness:
  "activeItemIndex (dispatched calculateActiveIndex
      (demo_heap (demo_state Open [4, 5, 6, 7] [] (Some 2))) 8 (GoToItem Next)) = Some 0
   \<and> activeItemIndex (dispatched calculateActiveIndex
      (demo_heap (demo_state Open [5, 7] [] (Some 0))) 8 (GoToItem Next)) = None"
proof -
  let ?h = "demo_heap (demo_state Open [4, 5, 6, 7] [] (Some 2))"
  let ?g = "demo_heap (demo_state Open [5, 7] [] (Some 0))"
  have dis: "\<not> resolveDisabled ?h 4" "resolveDisabled ?h 5" "\<not> resolveDisabled ?h 6"
    "resolveDisabled ?h 7" "resolveDisabled ?g 5" "resolveDisabled ?g 7"
    by (simp_all add: resolveDisabled_def demo_defs)
  have xs: "items (stateObjs ?h 8) = [4, 5, 6, 7]" "items (stateObjs ?g 8) = [5, 7]"
    "activeItemIndex (stateObjs ?h 8) = Some (int 2)"
    by (simp_all add: demo_defs)
  have last: "\<not> (j < length [4, 5, 6, 7::nat] \<and> \<not> resolveDisabled ?h ([4, 5, 6, 7] ! j))"
    if "2 < j" for j
  proof -
    have "j < 4 \<Longrightarrow> j = 3" using that by simp
    then show ?thesis using dis by auto
  qed
  have none: "\<not> (i < length [5, 7::nat] \<and> \<not> resolveDisabled ?g ([5, 7] ! i))" for i
  proof -
    have "i < 2 \<Longrightarrow> i = 0 \<or> i = 1" by auto
    then show ?thesis using dis by auto
  qed
  have "activeItemIndex (dispatched calculateActiveIndex ?h 8 (GoToItem Next)) = Some (int 0)"
    by (rule next_previous_wrap_and_skip_disabled
          [of ?h 8, THEN conjunct1, THEN spec [of _ 0], THEN spec [of _ 2], THEN mp,
           THEN conjunct1, THEN mp])
       (use dis xs last in \<open>auto simp: xs\<close>)
  moreover
  have "activeItemIndex (dispatched calculateActiveIndex ?g 8 (GoToItem Next)) = None"
    by (rule next_previous_wrap_and_skip_disabled
          [of ?g 8, THEN conjunct2, THEN conjunct2, THEN mp, THEN conjunct1])
       (use none in \<open>simp add: xs\<close>)
  ultimately show ?thesis by simp
qed

subsection \<open>Search\<close>

text \<open>
  What \<^verbatim>\<open>Search\<close> does in general: the query grows by the typed value; the first
  item whose stored text starts with the new query and which is not disabled becomes
  active; with no such item the active index stays.
\<close>

lemma search_state:
  "dispatched calc h state (Search val) =
     (let st = stateObjs h state;
          q = searchQuery st @ val;
          m = findIndex (search_matches h q) (items st)
      in st\<lparr>searchQuery := q,
            activeItemIndex := (if m = - 1 then activeItemIndex st else Some m)\<rparr>)"
  by (auto simp: dispatched_def reducers_Search_def new_state_def Let_def)

lemma search_never_selects_disabled:
  assumes "findIndex (search_matches h (searchQuery (stateObjs h state) @ val))
             (items (stateObjs h state)) = m" "m \<noteq> - 1"
  shows "activeItemIndex (dispatched calc h state (Search val)) = Some m
         \<and> \<not> resolveDisabled h (items (stateObjs h state) ! nat m)"
proof -
  from findIndex_hit [of "search_matches h (searchQuery (stateObjs h state) @ val)"
      "items (stateObjs h state)"] assms
  have "search_matches h (searchQuery (stateObjs h state) @ val)
          (items (stateObjs h state) ! nat m)"
    by simp
  then show ?thesis
    using assms by (simp add: search_state Let_def search_matches_def resolveDisabled_def)
qed

text \<open>
  Claim C4: the code and the claim part on an upper-case key. The text of the item
  \<open>Home\<close> is stored as \<open>home\<close>; the key \<open>H\<close> makes the query \<open>H\<close>, which
  \<^verbatim>\<open>startsWith\<close> does not find at the start of \<open>home\<close>, so the active index stays
  \<^verbatim>\<open>null\<close>, although \<open>Home\<close> starts with \<open>H\<close> when case is ignored and the item is
  not disabled.
\<close>

theorem search_upper_case_key_finds_nothing:
  "textValue (refCells (Item_textValue_effect (demo_heap (demo_state Open [4] [] None)) 0
       (Some ''Home'')) 0) = Some ''home''
   \<and> \<not> disabled (refCells (Item_textValue_effect (demo_heap (demo_state Open [4] [] None)) 0
       (Some ''Home'')) 0)
   \<and> prefix (toLowerCase ''H'') (toLowerCase ''Home'')
   \<and> dispatched calculateActiveIndex
        (Item_textValue_effect (demo_heap (demo_state Open [4] [] None)) 0 (Some ''Home'')) 8
        (Search ''H'') = demo_state Open [4] ''H'' None"
proof -
  have low: "toLowerCase ''Home'' = ''home''" "toLowerCase ''H'' = ''h''"
    by code_simp+
  show ?thesis
    by (simp add: low dispatched_def reducers_Search_def search_matches_def new_state_def
        Item_textValue_effect_def Let_def demo_defs)
qed

subsection \<open>The context guard\<close>

text \<open>
  Claim C8. Without a context (\<^verbatim>\<open>null\<close>), \<^verbatim>\<open>useMenuContext\<close> throws an error
  whose message names the component it was called for and the parent \<^verbatim>\<open>Menu\<close>;
  so do \<^verbatim>\<open>Menu.Button\<close>, \<^verbatim>\<open>Menu.Items\<close> and \<^verbatim>\<open>Menu.Item\<close>.
\<close>

theorem missing_parent_throws:
  "useMenuContext component (None :: 'c option)
     = Inl (Error (''<'' @ component @ '' /> is missing a parent <Menu /> component.''))
   \<and> Button_context (None :: 'c option)
     = Inl (Error ''<Menu.Button /> is missing a parent <Menu /> component.'')
   \<and> Items_context (None :: 'c option)
     = Inl (Error ''<Menu.Items /> is missing a parent <Menu /> component.'')
   \<and> Item_context (None :: 'c option)
     = Inl (Error ''<Menu.Item /> is missing a parent <Menu /> component.'')"
  by (simp add: useMenuContext_def Button_context_def Items_context_def Item_context_def
      Menu_name_def Button_name_def Items_name_def Item_name_def)

end
